theory Spec2Isabelle
  imports Main "HOL-Library.Multiset"
begin

section \<open>The data model of wooden\_structure.py\<close>

text \<open>
  The enumeration \<^verbatim>\<open>TraverseType\<close> of the source, constructor for constructor.
\<close>

datatype TraverseType = PRE_ORDER | IN_ORDER | POST_ORDER | LEVEL_ORDER

text \<open>
  The class \<^verbatim>\<open>Node\<close>: the stored value, the depth given to the constructor (the
  source exposes it through a read-only property and never assigns it again), and the two
  children, each of Python type \<^verbatim>\<open>Node | None\<close>, hence an \<open>option\<close>. The field
  \<^verbatim>\<open>value\<close> is called \<open>node_value\<close> here. Nodes are created in \<^verbatim>\<open>_insert\<close> only and
  each one is referenced by exactly one parent link (or by the root), so the in-place updates
  of the source are rendered by rebuilding the node with the same value and depth. Python's
  \<^verbatim>\<open>int\<close> is unbounded, so the depth is an \<open>int\<close>. The element type is any linear order,
  as the comparisons of the source delegate to the stored values. The interpreter's limit on
  the depth of recursion is not part of the model.
\<close>

datatype 'a node =
  Node (node_value: 'a) (depth: int) (left: "'a node option") (right: "'a node option")

text \<open>
  \<^verbatim>\<open>Node.__eq__\<close> and \<^verbatim>\<open>Node.__gt__\<close> against a bare value (the \<^verbatim>\<open>else\<close> branch of
  each method). In \<^verbatim>\<open>_insert\<close> the source writes \<^verbatim>\<open>value == node\<close> and
  \<^verbatim>\<open>value < node\<close> with the bare value on the left; Python then calls the reflected
  method of the node, which is \<^verbatim>\<open>node.__eq__(value)\<close> for the first and
  \<^verbatim>\<open>node.__gt__(value)\<close> for the second.
\<close>

definition node_eq :: "'a node \<Rightarrow> 'a \<Rightarrow> bool" where
  "node_eq n other = (node_value n = other)"

definition node_gt :: "'a::linorder node \<Rightarrow> 'a \<Rightarrow> bool" where
  "node_gt n other = (node_value n > other)"

text \<open>
  The class \<^verbatim>\<open>BinaryTree\<close>: the root link and the traversal order fixed by the
  constructor.
\<close>

record 'a BinaryTree =
  root :: "'a node option"
  traverse_type :: TraverseType

datatype py_error = TypeError

section \<open>Traversal: \<^verbatim>\<open>BinaryTree.__iter__\<close>\<close>

text \<open>
  The three generators \<^verbatim>\<open>_pre_order\<close>, \<^verbatim>\<open>_in_order\<close> and \<^verbatim>\<open>_post_order\<close>. A
  generator is rendered as the list of the nodes it yields, in order. A \<^verbatim>\<open>Node\<close> object
  is always true in a condition (the class defines neither \<^verbatim>\<open>__bool__\<close> nor
  \<^verbatim>\<open>__len__\<close>), so \<^verbatim>\<open>if node:\<close> tests for \<^verbatim>\<open>None\<close>.
\<close>

fun pre_order :: "'a node option \<Rightarrow> 'a node list" where
  "pre_order None = []"
| "pre_order (Some (Node v d l r)) = Node v d l r # pre_order l @ pre_order r"

fun in_order :: "'a node option \<Rightarrow> 'a node list" where
  "in_order None = []"
| "in_order (Some (Node v d l r)) = in_order l @ Node v d l r # in_order r"

fun post_order :: "'a node option \<Rightarrow> 'a node list" where
  "post_order None = []"
| "post_order (Some (Node v d l r)) = post_order l @ post_order r @ [Node v d l r]"

text \<open>
  \<^verbatim>\<open>_level_order\<close> collects the nodes in a dictionary from depth to list of nodes. A
  Python dictionary keeps its keys in the order of their first insertion, and
  \<^verbatim>\<open>values()\<close> follows that order, so the dictionary is an association list with distinct
  keys: \<open>dict_add\<close> is the \<^verbatim>\<open>if node.depth not in result.keys()\<close> statement, which
  appends a new entry at the end for a new key and appends the node to the existing list
  otherwise.
\<close>

fun dict_append :: "(int \<times> 'a list) list \<Rightarrow> int \<Rightarrow> 'a \<Rightarrow> (int \<times> 'a list) list" where
  "dict_append [] k x = []"
| "dict_append ((k', xs) # kvs) k x =
     (if k' = k then (k', xs @ [x]) # kvs else (k', xs) # dict_append kvs k x)"

definition dict_add :: "(int \<times> 'a list) list \<Rightarrow> int \<Rightarrow> 'a \<Rightarrow> (int \<times> 'a list) list" where
  "dict_add result k x =
     (if k \<notin> set (map fst result) then result @ [(k, [x])] else dict_append result k x)"

fun level_order_collect ::
  "'a node option \<Rightarrow> (int \<times> 'a node list) list \<Rightarrow> (int \<times> 'a node list) list" where
  "level_order_collect None result = result"
| "level_order_collect (Some (Node v d l r)) result =
     level_order_collect r
       (level_order_collect l (dict_add result (depth (Node v d l r)) (Node v d l r)))"

definition level_order :: "'a node option \<Rightarrow> 'a node list" where
  "level_order node = concat (map snd (level_order_collect node []))"

text \<open>The dispatch on \<^verbatim>\<open>self.traverse_type\<close> at the end of \<^verbatim>\<open>__iter__\<close>.\<close>

definition bt_iter :: "'a BinaryTree \<Rightarrow> 'a node list" where
  "bt_iter self =
     (if traverse_type self = PRE_ORDER then pre_order (root self)
      else if traverse_type self = IN_ORDER then in_order (root self)
      else if traverse_type self = POST_ORDER then post_order (root self)
      else level_order (root self))"

section \<open>Membership: \<^verbatim>\<open>BinaryTree.__contains__\<close>\<close>

text \<open>The loop over the iteration, returning at the first node equal to the value.\<close>

fun contains_loop :: "'a node list \<Rightarrow> 'a \<Rightarrow> bool" where
  "contains_loop [] v = False"
| "contains_loop (n # ns) v = (if node_eq n v then True else contains_loop ns v)"

definition bt_contains :: "'a BinaryTree \<Rightarrow> 'a \<Rightarrow> bool" where
  "bt_contains self v = contains_loop (bt_iter self) v"

section \<open>Insertion: \<^verbatim>\<open>BinaryTree.insert\<close>\<close>

text \<open>
  The inner function \<^verbatim>\<open>_insert(node, value, depth)\<close>. The depth passed down is the
  parameter plus one, not the depth stored in the node.
\<close>

fun inner_insert :: "'a::linorder node option \<Rightarrow> 'a \<Rightarrow> int \<Rightarrow> 'a node" where
  "inner_insert None v dep = Node v dep None None"
| "inner_insert (Some (Node w d l r)) v dep =
     (if node_eq (Node w d l r) v then Node w d l r
      else if node_gt (Node w d l r) v then Node w d (Some (inner_insert l v (dep + 1))) r
      else Node w d l (Some (inner_insert r v (dep + 1))))"

definition bt_insert :: "'a::linorder BinaryTree \<Rightarrow> 'a \<Rightarrow> 'a BinaryTree" where
  "bt_insert self v = self\<lparr>root := Some (inner_insert (root self) v 0)\<rparr>"

section \<open>Deletion: \<^verbatim>\<open>BinaryTree.delete\<close>\<close>

text \<open>
  \<^verbatim>\<open>_search_min\<close> and \<^verbatim>\<open>_delete_min\<close> take a \<^verbatim>\<open>Node\<close>, never \<^verbatim>\<open>None\<close>; the first
  returns a value, the second a \<^verbatim>\<open>Node | None\<close>.
\<close>

fun search_min :: "'a node \<Rightarrow> 'a" where
  "search_min (Node v d None r) = v"
| "search_min (Node v d (Some l) r) = search_min l"

fun delete_min :: "'a node \<Rightarrow> 'a node option" where
  "delete_min (Node v d None r) = r"
| "delete_min (Node v d (Some l) r) = Some (Node v d (delete_min l) r)"

text \<open>
  \<^verbatim>\<open>_delete(node, value)\<close>, which compares against \<^verbatim>\<open>node.value\<close> directly. The three
  cases at the matched node are in the order of the source.
\<close>

fun inner_delete :: "'a::linorder node option \<Rightarrow> 'a \<Rightarrow> 'a node option" where
  "inner_delete None v = None"
| "inner_delete (Some (Node w d l r)) v =
     (if v = w then
        (case l of
           None \<Rightarrow> r
         | Some ln \<Rightarrow>
             (case r of
                None \<Rightarrow> l
              | Some rn \<Rightarrow> Some (Node (search_min rn) d l (delete_min rn))))
      else if v < w then Some (Node w d (inner_delete l v) r)
      else Some (Node w d l (inner_delete r v)))"

definition bt_delete :: "'a::linorder BinaryTree \<Rightarrow> 'a \<Rightarrow> 'a BinaryTree" where
  "bt_delete self v = self\<lparr>root := inner_delete (root self) v\<rparr>"

section \<open>Construction: \<^verbatim>\<open>BinaryTree.__init__\<close>\<close>

text \<open>
  The constructor sets the two fields and then runs \<^verbatim>\<open>for i in iterable\<close>. The
  parameter \<^verbatim>\<open>iterable\<close> has the type \<^verbatim>\<open>Iterable | None\<close> and the default
  \<^verbatim>\<open>None\<close>: it is an \<open>option\<close>, \<open>None\<close> standing both for the omitted argument and for
  an explicit \<^verbatim>\<open>None\<close>. Python raises \<^verbatim>\<open>TypeError\<close> when a \<^verbatim>\<open>for\<close> statement is
  given \<^verbatim>\<open>None\<close>; there is no guard before the loop.
\<close>

fun init_loop :: "'a::linorder list \<Rightarrow> 'a BinaryTree \<Rightarrow> 'a BinaryTree" where
  "init_loop [] self = self"
| "init_loop (i # rest) self = init_loop rest (bt_insert self i)"

definition BinaryTree_init ::
  "'a::linorder list option \<Rightarrow> TraverseType \<Rightarrow> py_error + 'a BinaryTree" where
  "BinaryTree_init iterable tt =
     (case iterable of
        None \<Rightarrow> Inl TypeError
      | Some xs \<Rightarrow> Inr (init_loop xs \<lparr>root = None, traverse_type = tt\<rparr>))"

section \<open>Sequences of calls\<close>

text \<open>
  A tree in use is the result of the constructor followed by any sequence of calls of
  \<^verbatim>\<open>insert\<close> and \<^verbatim>\<open>delete\<close>.
\<close>

datatype 'a call = Insert 'a | Delete 'a

fun apply_call :: "'a::linorder BinaryTree \<Rightarrow> 'a call \<Rightarrow> 'a BinaryTree" where
  "apply_call self (Insert v) = bt_insert self v"
| "apply_call self (Delete v) = bt_delete self v"

fun run_calls :: "'a::linorder call list \<Rightarrow> 'a BinaryTree \<Rightarrow> 'a BinaryTree" where
  "run_calls [] self = self"
| "run_calls (c # cs) self = run_calls cs (apply_call self c)"

definition built :: "'a::linorder list \<Rightarrow> TraverseType \<Rightarrow> 'a call list \<Rightarrow> 'a BinaryTree" where
  "built xs tt cs = run_calls cs (init_loop xs \<lparr>root = None, traverse_type = tt\<rparr>)"

section \<open>Notions of the specification\<close>

text \<open>
  The values stored in a subtree, and the search-tree invariant of the specification: at
  every node, the values of the left subtree are strictly below the node's value and the
  values of the right subtree strictly above it.
\<close>

definition tree_values :: "'a node option \<Rightarrow> 'a set" where
  "tree_values t = node_value ` set (pre_order t)"

fun bst :: "'a::linorder node option \<Rightarrow> bool" where
  "bst None = True"
| "bst (Some (Node v d l r)) =
     (bst l \<and> bst r \<and> list_all (\<lambda>n. node_value n < v) (pre_order l)
      \<and> list_all (\<lambda>n. v < node_value n) (pre_order r))"

text \<open>The number of nodes of a subtree.\<close>

fun count_nodes :: "'a node option \<Rightarrow> nat" where
  "count_nodes None = 0"
| "count_nodes (Some (Node v d l r)) = 1 + count_nodes l + count_nodes r"

text \<open>
  The set of values a sequence of calls leaves behind, computed on sets: an insertion adds
  its value, a deletion removes it.
\<close>

fun stored_values :: "'a call list \<Rightarrow> 'a set \<Rightarrow> 'a set" where
  "stored_values [] s = s"
| "stored_values (Insert v # cs) s = stored_values cs (insert v s)"
| "stored_values (Delete v # cs) s = stored_values cs (s - {v})"

text \<open>
  A position in a tree is the list of steps from the root down to it; each step records the
  node passed (its value and depth) and the sibling subtree not entered. \<open>plug p t\<close> is
  the tree with \<open>t\<close> at position \<open>p\<close>. \<open>leftmost n\<close> follows left children from
  \<open>n\<close> until there is none and returns the steps taken and the node reached.
\<close>

datatype 'a step =
  is_GoLeft: GoLeft 'a int "'a node option"
| is_GoRight: GoRight 'a int "'a node option"

fun plug :: "'a step list \<Rightarrow> 'a node option \<Rightarrow> 'a node option" where
  "plug [] t = t"
| "plug (GoLeft w d r # p) t = Some (Node w d (plug p t) r)"
| "plug (GoRight w d l # p) t = Some (Node w d l (plug p t))"

fun leftmost :: "'a node \<Rightarrow> 'a step list \<times> 'a node" where
  "leftmost (Node v d None r) = ([], Node v d None r)"
| "leftmost (Node v d (Some l) r) = (GoLeft v d r # fst (leftmost l), snd (leftmost l))"

text \<open>
  Three counts over a history of calls: the number of distinct values among those inserted
  (by the constructor's sequence or by a call), the number of deletions whose value was in
  the tree when they ran, and the number of insertions whose value was not.
\<close>

fun inserts_of :: "'a call list \<Rightarrow> 'a list" where
  "inserts_of [] = []"
| "inserts_of (Insert v # cs) = v # inserts_of cs"
| "inserts_of (Delete v # cs) = inserts_of cs"

definition distinct_inserted :: "'a list \<Rightarrow> 'a call list \<Rightarrow> nat" where
  "distinct_inserted xs cs = length (remdups (xs @ inserts_of cs))"

fun removing_deletes :: "'a::linorder call list \<Rightarrow> 'a BinaryTree \<Rightarrow> nat" where
  "removing_deletes [] self = 0"
| "removing_deletes (Insert v # cs) self = removing_deletes cs (bt_insert self v)"
| "removing_deletes (Delete v # cs) self =
     (if bt_contains self v then 1 else 0) + removing_deletes cs (bt_delete self v)"

fun adding_inserts :: "'a::linorder call list \<Rightarrow> 'a BinaryTree \<Rightarrow> nat" where
  "adding_inserts [] self = 0"
| "adding_inserts (Insert v # cs) self =
     (if bt_contains self v then 0 else 1) + adding_inserts cs (bt_insert self v)"
| "adding_inserts (Delete v # cs) self = adding_inserts cs (bt_delete self v)"

text \<open>
  The keys of a list of depths in the order of their first occurrence, and the grouping of a
  list of nodes by stored depth in that order of keys.
\<close>

definition first_seen :: "int list \<Rightarrow> int list" where
  "first_seen ks = rev (remdups (rev ks))"

definition depth_groups :: "'a node list \<Rightarrow> (int \<times> 'a node list) list" where
  "depth_groups ns =
     map (\<lambda>k. (k, filter (\<lambda>n. depth n = k) ns)) (first_seen (map depth ns))"

section \<open>The invariant under insertion and deletion\<close>

lemma mset_in_order: "mset (in_order t) = mset (pre_order t)"
  by (induction t rule: pre_order.induct) auto

lemma mset_post_order: "mset (post_order t) = mset (pre_order t)"
  by (induction t rule: pre_order.induct) auto

lemma tree_values_None [simp]: "tree_values None = {}"
  by (simp add: tree_values_def)

lemma tree_values_Some [simp]:
  "tree_values (Some (Node v d l r)) = insert v (tree_values l \<union> tree_values r)"
  by (auto simp: tree_values_def)

lemma bst_Some:
  "bst (Some (Node v d l r)) =
     (bst l \<and> bst r \<and> (\<forall>x\<in>tree_values l. x < v) \<and> (\<forall>x\<in>tree_values r. v < x))"
  by (auto simp: tree_values_def list_all_iff)

lemma tree_values_insert:
  "tree_values (Some (inner_insert t v dep)) = insert v (tree_values t)"
  by (induction t v dep rule: inner_insert.induct) (auto simp: node_eq_def node_gt_def)

lemma bst_inner_insert: "bst t \<Longrightarrow> bst (Some (inner_insert t v dep))"
proof (induction t v dep rule: inner_insert.induct)
  case (1 v dep)
  show ?case by simp
next
  case (2 w d l r v dep)
  then show ?case
    by (auto simp: bst_Some tree_values_insert node_eq_def node_gt_def simp del: bst.simps)
qed

lemma search_min_in: "search_min n \<in> tree_values (Some n)"
  by (induction n rule: search_min.induct) auto

lemma search_min_least:
  "bst (Some n) \<Longrightarrow> x \<in> tree_values (Some n) \<Longrightarrow> search_min n \<le> x"
proof (induction n rule: search_min.induct)
  case (1 v d r)
  then show ?case by (auto simp: bst_Some simp del: bst.simps)
next
  case (2 v d l r)
  have lt: "search_min l < v"
    using 2(2) search_min_in[of l] by (simp add: bst_Some del: bst.simps)
  have bl: "bst (Some l)" using 2(2) by simp
  consider "x = v" | "x \<in> tree_values (Some l)" | "x \<in> tree_values r"
    using 2(3) by auto
  then show ?case
  proof cases
    case 1
    with lt show ?thesis by simp
  next
    case 2
    with "2.IH" bl show ?thesis by simp
  next
    case 3
    then have "v < x" using 2(2) by (simp add: bst_Some del: bst.simps)
    with lt show ?thesis by simp
  qed
qed

lemma tree_values_delete_min:
  "bst (Some n) \<Longrightarrow> tree_values (delete_min n) = tree_values (Some n) - {search_min n}"
proof (induction n rule: search_min.induct)
  case (1 v d r)
  then show ?case by (auto simp: bst_Some simp del: bst.simps)
next
  case (2 v d l r)
  have lt: "search_min l < v"
    using 2(2) search_min_in[of l] by (simp add: bst_Some del: bst.simps)
  have bl: "bst (Some l)" using 2(2) by simp
  have r: "\<forall>x\<in>tree_values r. v < x" using 2(2) by (simp add: bst_Some del: bst.simps)
  have "search_min l \<notin> tree_values r" using r lt by (meson less_asym)
  moreover have "search_min l \<noteq> v" using lt by simp
  moreover have "tree_values (delete_min l) = tree_values (Some l) - {search_min l}"
    using "2.IH" bl by simp
  ultimately show ?case by auto
qed

lemma bst_delete_min: "bst (Some n) \<Longrightarrow> bst (delete_min n)"
proof (induction n rule: search_min.induct)
  case (1 v d r)
  then show ?case by simp
next
  case (2 v d l r)
  have bl: "bst (Some l)" using 2(2) by simp
  have "tree_values (delete_min l) \<subseteq> tree_values (Some l)"
    using tree_values_delete_min[OF bl] by auto
  moreover have "bst (delete_min l)" using "2.IH" bl by simp
  ultimately show ?case using 2(2)
    by (auto simp: bst_Some simp del: bst.simps)
qed

lemma bst_two_children:
  assumes "bst (Some (Node w d (Some ln) (Some rn)))"
  shows "bst (Some (Node (search_min rn) d (Some ln) (delete_min rn)))"
proof -
  have br: "bst (Some rn)" and bl: "bst (Some ln)" using assms by simp_all
  have lo: "\<forall>x\<in>tree_values (Some ln). x < w" and hi: "\<forall>x\<in>tree_values (Some rn). w < x"
    using assms by (simp_all add: bst_Some del: bst.simps)
  have m: "w < search_min rn" using hi search_min_in[of rn] by blast
  have "\<forall>x\<in>tree_values (Some ln). x < search_min rn"
    using lo m by (meson less_trans)
  moreover have "\<forall>x\<in>tree_values (delete_min rn). search_min rn < x"
  proof
    fix x assume "x \<in> tree_values (delete_min rn)"
    then have "x \<in> tree_values (Some rn)" "x \<noteq> search_min rn"
      using tree_values_delete_min[OF br] by auto
    then show "search_min rn < x" using search_min_least[OF br, of x] by simp
  qed
  ultimately show ?thesis
    using bl bst_delete_min[OF br] by (simp add: bst_Some del: bst.simps)
qed

lemma tree_values_two_children:
  assumes "bst (Some (Node w d (Some ln) (Some rn)))"
  shows "tree_values (Some (Node (search_min rn) d (Some ln) (delete_min rn)))
           = tree_values (Some (Node w d (Some ln) (Some rn))) - {w}"
proof -
  have br: "bst (Some rn)" using assms by simp
  have lo: "\<forall>x\<in>tree_values (Some ln). x < w" and hi: "\<forall>x\<in>tree_values (Some rn). w < x"
    using assms by (simp_all add: bst_Some del: bst.simps)
  have "w \<notin> tree_values (Some ln)" using lo by blast
  moreover have "w \<notin> tree_values (Some rn)" using hi by blast
  moreover note tree_values_delete_min[OF br] search_min_in[of rn]
  ultimately show ?thesis
    by (simp only: tree_values_Some) blast
qed

lemma tree_values_delete:
  "bst t \<Longrightarrow> tree_values (inner_delete t v) = tree_values t - {v}"
proof (induction t v rule: inner_delete.induct)
  case (1 v)
  show ?case by simp
next
  case (2 w d l r v)
  have lo: "\<forall>x\<in>tree_values l. x < w" and hi: "\<forall>x\<in>tree_values r. w < x"
    using 2(3) by (simp_all add: bst_Some del: bst.simps)
  have nl: "w \<notin> tree_values l" using lo by blast
  have nr: "w \<notin> tree_values r" using hi by blast
  show ?case
  proof (cases "v = w")
    case True
    show ?thesis
    proof (cases l)
      case None
      with True nr show ?thesis by simp
    next
      case (Some ln)
      note l = this
      show ?thesis
      proof (cases r)
        case None
        with True l nl show ?thesis by simp
      next
        case (Some rn)
        show ?thesis
          using tree_values_two_children[of w d ln rn] 2(3) True l Some by simp
      qed
    qed
  next
    case False
    note ne = this
    show ?thesis
    proof (cases "v < w")
      case True
      then have "v \<notin> tree_values r" using hi by (meson less_asym)
      moreover have "tree_values (inner_delete l v) = tree_values l - {v}"
        using "2.IH"(1)[OF ne True] 2(3) by simp
      ultimately show ?thesis using ne True by auto
    next
      case False
      then have "w < v" using ne by simp
      then have "v \<notin> tree_values l" using lo by (meson less_asym)
      moreover have "tree_values (inner_delete r v) = tree_values r - {v}"
        using "2.IH"(2)[OF ne False] 2(3) by simp
      ultimately show ?thesis using ne False by auto
    qed
  qed
qed

lemma bst_inner_delete: "bst t \<Longrightarrow> bst (inner_delete t v)"
proof (induction t v rule: inner_delete.induct)
  case (1 v)
  show ?case by simp
next
  case (2 w d l r v)
  have bl: "bst l" and br: "bst r" using 2(3) by simp_all
  show ?case
  proof (cases "v = w")
    case True
    show ?thesis
    proof (cases l)
      case None
      with True br show ?thesis by simp
    next
      case (Some ln)
      note l = this
      show ?thesis
      proof (cases r)
        case None
        with True l bl show ?thesis by simp
      next
        case (Some rn)
        show ?thesis
          using bst_two_children[of w d ln rn] 2(3) True l Some by simp
      qed
    qed
  next
    case False
    note ne = this
    show ?thesis
    proof (cases "v < w")
      case True
      have "bst (inner_delete l v)" using "2.IH"(1)[OF ne True] bl by simp
      moreover have "tree_values (inner_delete l v) \<subseteq> tree_values l"
        using tree_values_delete[OF bl, of v] by auto
      ultimately show ?thesis using ne True 2(3)
        by (auto simp: bst_Some simp del: bst.simps)
    next
      case False
      have "bst (inner_delete r v)" using "2.IH"(2)[OF ne False] br by simp
      moreover have "tree_values (inner_delete r v) \<subseteq> tree_values r"
        using tree_values_delete[OF br, of v] by auto
      ultimately show ?thesis using ne False 2(3)
        by (auto simp: bst_Some simp del: bst.simps)
    qed
  qed
qed

lemma set_in_order: "set (in_order t) = set (pre_order t)"
  by (metis mset_in_order set_mset_mset)

lemma sorted_in_order: "bst t \<Longrightarrow> sorted_wrt (<) (map node_value (in_order t))"
proof (induction t rule: pre_order.induct)
  case 1
  show ?case by simp
next
  case (2 v d l r)
  then show ?case
    by (fastforce simp: sorted_wrt_append set_in_order list_all_iff)
qed

section \<open>The four traversals visit the same nodes\<close>

lemma dict_append_concat:
  "k \<in> set (map fst res) \<Longrightarrow>
     mset (concat (map snd (dict_append res k x))) = mset (concat (map snd res)) + {#x#}"
  by (induction res k x rule: dict_append.induct) auto

lemma dict_add_concat:
  "mset (concat (map snd (dict_add res k x))) = mset (concat (map snd res)) + {#x#}"
  using dict_append_concat[of k res x] by (simp add: dict_add_def)

lemma level_order_collect_mset:
  "mset (concat (map snd (level_order_collect t res)))
     = mset (concat (map snd res)) + mset (pre_order t)"
  by (induction t res rule: level_order_collect.induct) (simp_all add: dict_add_concat)

lemma mset_level_order: "mset (level_order t) = mset (pre_order t)"
  by (simp add: level_order_def level_order_collect_mset)

lemma mset_bt_iter: "mset (bt_iter self) = mset (pre_order (root self))"
  by (simp add: bt_iter_def mset_in_order mset_post_order mset_level_order)

lemma set_bt_iter: "set (bt_iter self) = set (pre_order (root self))"
  by (metis mset_bt_iter set_mset_mset)

lemma contains_loop_iff: "contains_loop ns v = (v \<in> node_value ` set ns)"
  by (induction ns) (auto simp: node_eq_def)

lemma bt_contains_iff: "bt_contains self v = (v \<in> tree_values (root self))"
  by (simp add: bt_contains_def contains_loop_iff set_bt_iter tree_values_def)

lemma count_nodes_length: "count_nodes t = length (pre_order t)"
  by (induction t rule: pre_order.induct) auto

lemma length_bt_iter: "length (bt_iter self) = count_nodes (root self)"
  by (metis count_nodes_length mset_bt_iter size_mset)

lemma traverse_type_init_loop [simp]: "traverse_type (init_loop xs self) = traverse_type self"
  by (induction xs self rule: init_loop.induct) (simp_all add: bt_insert_def)

lemma traverse_type_run_calls [simp]: "traverse_type (run_calls cs self) = traverse_type self"
proof (induction cs self rule: run_calls.induct)
  case (1 self)
  show ?case by simp
next
  case (2 c cs self)
  then show ?case by (cases c) (simp_all add: bt_insert_def bt_delete_def)
qed

lemma traverse_type_built [simp]: "traverse_type (built xs tt cs) = tt"
  by (simp add: built_def)

lemma init_loop_run_calls: "init_loop xs self = run_calls (map Insert xs) self"
  by (induction xs self rule: init_loop.induct) simp_all

lemma run_calls_append: "run_calls (cs @ ds) self = run_calls ds (run_calls cs self)"
  by (induction cs self rule: run_calls.induct) simp_all

lemma bst_apply_call: "bst (root self) \<Longrightarrow> bst (root (apply_call self c))"
  by (cases c) (simp_all add: bt_insert_def bt_delete_def bst_inner_insert bst_inner_delete)

lemma bst_run_calls: "bst (root self) \<Longrightarrow> bst (root (run_calls cs self))"
  by (induction cs self rule: run_calls.induct) (simp_all add: bst_apply_call)

lemma bst_built: "bst (root (built xs tt cs))"
  by (simp add: built_def init_loop_run_calls bst_run_calls)

lemma values_apply_call:
  "bst (root self) \<Longrightarrow>
     tree_values (root (apply_call self c)) = stored_values [c] (tree_values (root self))"
  by (cases c) (simp_all add: bt_insert_def bt_delete_def tree_values_insert tree_values_delete)

lemma values_run_calls:
  "bst (root self) \<Longrightarrow>
     tree_values (root (run_calls cs self)) = stored_values cs (tree_values (root self))"
proof (induction cs self rule: run_calls.induct)
  case (1 self)
  show ?case by simp
next
  case (2 c cs self)
  have "bst (root (apply_call self c))" using 2(2) by (rule bst_apply_call)
  then have "tree_values (root (run_calls cs (apply_call self c)))
      = stored_values cs (tree_values (root (apply_call self c)))" by (rule "2.IH")
  also have "\<dots> = stored_values cs (stored_values [c] (tree_values (root self)))"
    using values_apply_call[OF 2(2)] by simp
  finally show ?case by (cases c) simp_all
qed

lemma stored_values_append:
  "stored_values (cs @ ds) s = stored_values ds (stored_values cs s)"
  by (induction cs s rule: stored_values.induct) simp_all

lemma stored_values_inserts: "stored_values (map Insert xs) s = set xs \<union> s"
  by (induction xs arbitrary: s) auto

lemma values_built: "tree_values (root (built xs tt cs)) = stored_values cs (set xs)"
proof -
  have "built xs tt cs = run_calls (map Insert xs @ cs) \<lparr>root = None, traverse_type = tt\<rparr>"
    by (simp add: built_def init_loop_run_calls run_calls_append)
  then show ?thesis
    by (simp add: values_run_calls stored_values_append stored_values_inserts)
qed

lemma insert_present:
  "bst t \<Longrightarrow> v \<in> tree_values t \<Longrightarrow> Some (inner_insert t v dep) = t"
proof (induction t v dep rule: inner_insert.induct)
  case (1 v dep)
  then show ?case by simp
next
  case (2 w d l r v dep)
  have lo: "\<forall>x\<in>tree_values l. x < w" and hi: "\<forall>x\<in>tree_values r. w < x"
    using 2(3) by (simp_all add: bst_Some del: bst.simps)
  have bl: "bst l" and br: "bst r" using 2(3) by simp_all
  show ?case
  proof (cases "v = w")
    case True
    then show ?thesis by (simp add: node_eq_def)
  next
    case False
    note ne = this
    show ?thesis
    proof (cases "v < w")
      case True
      then have "v \<notin> tree_values r" using hi by (meson less_asym)
      then have "v \<in> tree_values l" using 2(4) ne by simp
      then have "Some (inner_insert l v (dep + 1)) = l"
        using "2.IH"(1) ne True bl by (simp add: node_eq_def node_gt_def)
      then show ?thesis using ne True by (simp add: node_eq_def node_gt_def)
    next
      case False
      then have "w < v" using ne by simp
      then have "v \<notin> tree_values l" using lo by (meson less_asym)
      then have "v \<in> tree_values r" using 2(4) ne by simp
      then have "Some (inner_insert r v (dep + 1)) = r"
        using "2.IH"(2) ne False br by (simp add: node_eq_def node_gt_def)
      then show ?thesis using ne False by (simp add: node_eq_def node_gt_def)
    qed
  qed
qed

lemma delete_absent: "v \<notin> tree_values t \<Longrightarrow> inner_delete t v = t"
  by (induction t v rule: inner_delete.induct) auto

lemma post_order_last: "post_order (Some n) \<noteq> [] \<and> last (post_order (Some n)) = n"
  by (cases n) simp

section \<open>Deletion at a position, and node counts\<close>

lemma plug_contains: "v \<in> tree_values (plug p (Some (Node v d l r)))"
  by (induction p "Some (Node v d l r)" rule: plug.induct) simp_all

lemma bst_plug: "bst (plug p t) \<Longrightarrow> bst t"
  by (induction p t rule: plug.induct) simp_all

lemma inner_delete_plug:
  "bst (plug p (Some (Node v d (Some ln) (Some rn)))) \<Longrightarrow>
     inner_delete (plug p (Some (Node v d (Some ln) (Some rn)))) v
       = plug p (Some (Node (search_min rn) d (Some ln) (delete_min rn)))"
proof (induction p)
  case Nil
  show ?case by simp
next
  case (Cons s p)
  let ?X = "Some (Node v d (Some ln) (Some rn))"
  have mem: "v \<in> tree_values (plug p ?X)" by (rule plug_contains)
  show ?case
  proof (cases s)
    case (GoLeft w e r)
    have b: "bst (Some (Node w e (plug p ?X) r))" using Cons.prems GoLeft by simp
    then have "v < w" using mem by (simp add: bst_Some del: bst.simps)
    then have "v \<noteq> w" "v < w" by simp_all
    moreover have "bst (plug p ?X)" using b by simp
    ultimately show ?thesis using Cons.IH GoLeft by simp
  next
    case (GoRight w e l)
    have b: "bst (Some (Node w e l (plug p ?X)))" using Cons.prems GoRight by simp
    then have "w < v" using mem by (simp add: bst_Some del: bst.simps)
    then have "v \<noteq> w" "\<not> v < w" by simp_all
    moreover have "bst (plug p ?X)" using b by simp
    ultimately show ?thesis using Cons.IH GoRight by simp
  qed
qed

lemma leftmost_plug: "plug (fst (leftmost n)) (Some (snd (leftmost n))) = Some n"
  by (induction n rule: leftmost.induct) simp_all

lemma leftmost_steps: "list_all is_GoLeft (fst (leftmost n))"
  by (induction n rule: leftmost.induct) simp_all

lemma leftmost_left: "left (snd (leftmost n)) = None"
  by (induction n rule: leftmost.induct) simp_all

lemma leftmost_search_min: "search_min n = node_value (snd (leftmost n))"
  by (induction n rule: leftmost.induct) simp_all

lemma leftmost_delete_min: "delete_min n = plug (fst (leftmost n)) (right (snd (leftmost n)))"
  by (induction n rule: leftmost.induct) simp_all

lemma finite_tree_values: "finite (tree_values t)"
  by (simp add: tree_values_def)

lemma search_min_Min: "bst (Some n) \<Longrightarrow> search_min n = Min (tree_values (Some n))"
  by (metis Min_eqI finite_tree_values search_min_in search_min_least)

lemma distinct_values: "bst t \<Longrightarrow> distinct (map node_value (in_order t))"
  using sorted_in_order strict_sorted_iff by blast

lemma count_nodes_card: "bst t \<Longrightarrow> count_nodes t = card (tree_values t)"
proof -
  assume "bst t"
  then have "card (set (map node_value (in_order t))) = length (map node_value (in_order t))"
    using distinct_values distinct_card by blast
  moreover have "length (in_order t) = length (pre_order t)"
    by (metis mset_in_order size_mset)
  ultimately show ?thesis
    by (simp add: count_nodes_length tree_values_def set_in_order)
qed

lemma count_apply_call:
  assumes "bst (root self)"
  shows "count_nodes (root (apply_call self c)) + removing_deletes [c] self
           = count_nodes (root self) + adding_inserts [c] self"
proof (cases c)
  case (Insert v)
  have "bst (Some (inner_insert (root self) v 0))" using assms by (rule bst_inner_insert)
  then have "count_nodes (Some (inner_insert (root self) v 0))
      = card (insert v (tree_values (root self)))"
    by (simp add: count_nodes_card tree_values_insert)
  then show ?thesis using Insert assms
    by (simp add: bt_insert_def bt_contains_iff count_nodes_card finite_tree_values
        card_insert_if)
next
  case (Delete v)
  have "bst (inner_delete (root self) v)" using assms by (rule bst_inner_delete)
  then have "count_nodes (inner_delete (root self) v)
      = card (tree_values (root self) - {v})"
    by (simp add: count_nodes_card tree_values_delete[OF assms])
  moreover have "v \<in> tree_values (root self) \<Longrightarrow> card (tree_values (root self)) > 0"
    using finite_tree_values[of "root self"] by (auto simp: card_gt_0_iff)
  ultimately show ?thesis using Delete assms
    by (auto simp: bt_delete_def bt_contains_iff count_nodes_card finite_tree_values)
qed

lemma count_run_calls:
  "bst (root self) \<Longrightarrow>
     count_nodes (root (run_calls cs self)) + removing_deletes cs self
       = count_nodes (root self) + adding_inserts cs self"
proof (induction cs self rule: run_calls.induct)
  case (1 self)
  show ?case by simp
next
  case (2 c cs self)
  have "bst (root (apply_call self c))" using 2(2) by (rule bst_apply_call)
  then have ih: "count_nodes (root (run_calls cs (apply_call self c)))
        + removing_deletes cs (apply_call self c)
      = count_nodes (root (apply_call self c)) + adding_inserts cs (apply_call self c)"
    by (rule "2.IH")
  have st: "count_nodes (root (apply_call self c)) + removing_deletes [c] self
      = count_nodes (root self) + adding_inserts [c] self"
    using 2(2) by (rule count_apply_call)
  show ?case using ih st by (cases c) simp_all
qed

section \<open>The groups of the level-order traversal\<close>

lemma first_seen_snoc:
  "first_seen (ks @ [k]) = (if k \<in> set ks then first_seen ks else first_seen ks @ [k])"
  by (simp add: first_seen_def)

lemma first_seen_Nil [simp]: "first_seen [] = []"
  by (simp add: first_seen_def)

lemma set_first_seen [simp]: "set (first_seen ks) = set ks"
  by (simp add: first_seen_def)

lemma distinct_first_seen [simp]: "distinct (first_seen ks)"
  by (simp add: first_seen_def)

lemma dict_append_map:
  "distinct (map fst res) \<Longrightarrow>
     dict_append res k x = map (\<lambda>(j, g). if j = k then (j, g @ [x]) else (j, g)) res"
proof (induction res k x rule: dict_append.induct)
  case (1 k x)
  show ?case by simp
next
  case (2 k' xs kvs k x)
  show ?case
  proof (cases "k' = k")
    case True
    then have "k \<notin> fst ` set kvs" using 2(2) by simp
    then have "map (\<lambda>(j, g). if j = k then (j, g @ [x]) else (j, g)) kvs = kvs"
      by (intro map_idI) (auto simp: image_iff)
    then show ?thesis using True by simp
  next
    case False
    then show ?thesis using 2 by simp
  qed
qed

lemma depth_groups_snoc: "dict_add (depth_groups ns) (depth n) n = depth_groups (ns @ [n])"
proof (cases "depth n \<in> set (map depth ns)")
  case False
  then have "filter (\<lambda>m. depth m = depth n) ns = []"
    by (auto simp: filter_empty_conv image_iff)
  moreover have "map (\<lambda>k. (k, filter (\<lambda>m. depth m = k) ns @ (if depth n = k then [n] else [])))
        (first_seen (map depth ns))
      = map (\<lambda>k. (k, filter (\<lambda>m. depth m = k) ns)) (first_seen (map depth ns))"
    using False by (intro map_cong) auto
  ultimately show ?thesis using False
    by (simp add: dict_add_def depth_groups_def first_seen_snoc comp_def image_iff)
next
  case True
  have d: "distinct (map fst (depth_groups ns))"
    by (simp add: depth_groups_def comp_def)
  have "dict_add (depth_groups ns) (depth n) n
      = map (\<lambda>(j, g). if j = depth n then (j, g @ [n]) else (j, g)) (depth_groups ns)"
    using True dict_append_map[OF d] by (simp add: dict_add_def depth_groups_def comp_def)
  also have "\<dots> = depth_groups (ns @ [n])"
    using True by (auto simp: depth_groups_def first_seen_snoc)
  finally show ?thesis .
qed

lemma level_order_collect_groups:
  "level_order_collect t (depth_groups ns) = depth_groups (ns @ pre_order t)"
proof (induction t arbitrary: ns rule: pre_order.induct)
  case 1
  show ?case by simp
next
  case (2 v d l r)
  show ?case
    using depth_groups_snoc[of ns "Node v d l r"] 2[of "ns @ [Node v d l r]"]
      "2"(2)[of "ns @ Node v d l r # pre_order l"]
    by simp
qed

lemma level_order_groups:
  "level_order t = concat (map (\<lambda>k. filter (\<lambda>n. depth n = k) (pre_order t))
     (first_seen (map depth (pre_order t))))"
  using level_order_collect_groups[of t "[]"]
  by (simp add: level_order_def depth_groups_def comp_def)

section \<open>In-order traversal is ascending\<close>

text \<open>
  Claim C1. Take the tree made by the constructor from any sequence \<open>xs\<close> with the order
  \<^verbatim>\<open>IN_ORDER\<close>, followed by any sequence \<open>cs\<close> of calls of \<^verbatim>\<open>insert\<close> and
  \<^verbatim>\<open>delete\<close>. The values of the nodes that its iteration yields are in strictly
  ascending order, and they are exactly the values stored: those inserted and not deleted
  afterwards.
\<close>

theorem in_order_ascending:
  "sorted_wrt (<) (map node_value (bt_iter (built xs IN_ORDER cs))) \<and>
   set (map node_value (bt_iter (built xs IN_ORDER cs))) = stored_values cs (set xs)"
proof -
  have "bt_iter (built xs IN_ORDER cs) = in_order (root (built xs IN_ORDER cs))"
    by (simp add: bt_iter_def)
  moreover have "sorted_wrt (<) (map node_value (in_order (root (built xs IN_ORDER cs))))"
    using bst_built by (rule sorted_in_order)
  moreover have "node_value ` set (in_order (root (built xs IN_ORDER cs)))
      = stored_values cs (set xs)"
    using values_built[of xs IN_ORDER cs] by (simp add: tree_values_def set_in_order)
  ultimately show ?thesis by simp
qed

section \<open>The ordering invariant is preserved\<close>

text \<open>
  Claim C2. The search-tree invariant (at every node, the left subtree holds strictly
  smaller values and the right subtree strictly greater ones) holds for the empty tree, and
  a tree that satisfies it still does after any call of \<^verbatim>\<open>insert\<close> and after any call
  of \<^verbatim>\<open>delete\<close>.
\<close>

theorem bst_invariant_preserved:
  "bst (root \<lparr>root = None, traverse_type = tt\<rparr>) \<and>
   (bst (root self) \<longrightarrow> bst (root (bt_insert self v))) \<and>
   (bst (root self) \<longrightarrow> bst (root (bt_delete self v)))"
  by (simp add: bt_insert_def bt_delete_def bst_inner_insert bst_inner_delete)

theorem bst_invariant_preserved_witness:
  "bst (root (built [5, 3, 8 :: int] PRE_ORDER [])) \<and>
   bst (root (bt_insert (built [5, 3, 8 :: int] PRE_ORDER []) 4)) \<and>
   bst (root (bt_delete (built [5, 3, 8 :: int] PRE_ORDER []) 5))"
proof -
  have b: "bst (root (built [5, 3, 8 :: int] PRE_ORDER []))"
    by (simp add: built_def bt_insert_def node_eq_def node_gt_def)
  show ?thesis
    using b bst_invariant_preserved [of PRE_ORDER "built [5, 3, 8 :: int] PRE_ORDER []" "4::int"]
      bst_invariant_preserved [of PRE_ORDER "built [5, 3, 8 :: int] PRE_ORDER []" "5::int"]
    by simp
qed

section \<open>Deleting a value whose node has two children\<close>

text \<open>
  Claim C3. Take any tree reached by the constructor and a sequence of calls, and let the
  value \<open>v\<close> be stored in it at a node with both children present, at any position
  \<open>p\<close>. Then \<^verbatim>\<open>delete(v)\<close> changes the tree at that position only: the node keeps
  its depth and its left child, its value becomes the minimum of the values of its right
  subtree, and its right subtree loses the node holding that minimum. That node is the one
  reached from the right child by following left children until there is none, and it is
  replaced by its own right child.
\<close>

theorem delete_two_children:
  assumes "root (built xs tt cs) = plug p (Some (Node v d (Some ln) (Some rn)))"
  shows "bt_delete (built xs tt cs) v
           = (built xs tt cs)
               \<lparr>root := plug p (Some (Node (search_min rn) d (Some ln) (delete_min rn)))\<rparr> \<and>
         search_min rn = Min (tree_values (Some rn)) \<and>
         Some rn = plug (fst (leftmost rn)) (Some (snd (leftmost rn))) \<and>
         list_all is_GoLeft (fst (leftmost rn)) \<and>
         left (snd (leftmost rn)) = None \<and>
         search_min rn = node_value (snd (leftmost rn)) \<and>
         delete_min rn = plug (fst (leftmost rn)) (right (snd (leftmost rn)))"
proof -
  have "bst (root (built xs tt cs))" by (rule bst_built)
  then have b: "bst (plug p (Some (Node v d (Some ln) (Some rn))))" using assms by simp
  then have "bst (Some (Node v d (Some ln) (Some rn)))" by (rule bst_plug)
  then have "bst (Some rn)" by simp
  then have "search_min rn = Min (tree_values (Some rn))" by (rule search_min_Min)
  moreover have "bt_delete (built xs tt cs) v
      = (built xs tt cs)
          \<lparr>root := plug p (Some (Node (search_min rn) d (Some ln) (delete_min rn)))\<rparr>"
    using inner_delete_plug[OF b] assms by (simp add: bt_delete_def)
  ultimately show ?thesis
    using leftmost_plug[of rn] leftmost_steps[of rn] leftmost_left[of rn]
      leftmost_search_min[of rn] leftmost_delete_min[of rn]
    by simp
qed

theorem delete_two_children_witness:
  "root (built [5, 3, 8, 7, 9 :: int] PRE_ORDER [])
     = plug [GoRight 5 0 (Some (Node 3 1 None None))]
         (Some (Node 8 1 (Some (Node 7 2 None None)) (Some (Node 9 2 None None)))) \<and>
   bt_delete (built [5, 3, 8, 7, 9 :: int] PRE_ORDER []) 8
     = \<lparr>root = plug [GoRight 5 0 (Some (Node 3 1 None None))]
         (Some (Node 9 1 (Some (Node 7 2 None None)) None)),
        traverse_type = PRE_ORDER\<rparr>"
proof -
  have r: "root (built [5, 3, 8, 7, 9 :: int] PRE_ORDER [])
     = plug [GoRight 5 0 (Some (Node 3 1 None None))]
         (Some (Node 8 1 (Some (Node 7 2 None None)) (Some (Node 9 2 None None))))"
    by (simp add: built_def bt_insert_def node_eq_def node_gt_def)
  show ?thesis
    using delete_two_children [OF r] r
    by (simp add: built_def bt_insert_def node_eq_def node_gt_def)
qed

section \<open>Membership after insertion and deletion\<close>

text \<open>
  Claim C4. In any tree reached by the constructor and a sequence of calls, under any of the
  four traversal orders and for any value \<open>v\<close>: after \<^verbatim>\<open>insert(v)\<close> the membership test
  for \<open>v\<close> is true, after \<^verbatim>\<open>insert(v)\<close> and then \<^verbatim>\<open>delete(v)\<close> it is false, and it is
  false after \<^verbatim>\<open>delete(v)\<close> on any such tree.
\<close>

theorem contains_after_insert_delete:
  "bt_contains (bt_insert (built xs tt cs) v) v \<and>
   \<not> bt_contains (bt_delete (bt_insert (built xs tt cs) v) v) v \<and>
   \<not> bt_contains (bt_delete (built xs tt cs) v) v"
proof -
  have b: "bst (root (built xs tt cs))" by (rule bst_built)
  have bi: "bst (Some (inner_insert (root (built xs tt cs)) v 0))"
    using b by (rule bst_inner_insert)
  show ?thesis
    by (simp add: bt_contains_iff bt_insert_def bt_delete_def tree_values_insert
        tree_values_delete[OF b] tree_values_delete[OF bi])
qed

section \<open>Inserting a value already present\<close>

text \<open>
  Claim C5. In any tree reached by the constructor and a sequence of calls, inserting a
  value that the tree contains returns the tree as it was: no node is added, none is
  changed, and so the in-order sequence of values is the same.
\<close>

theorem insert_present_unchanged:
  "bt_contains (built xs tt cs) v \<Longrightarrow>
     bt_insert (built xs tt cs) v = built xs tt cs \<and>
     map node_value (in_order (root (bt_insert (built xs tt cs) v)))
       = map node_value (in_order (root (built xs tt cs)))"
proof -
  assume "bt_contains (built xs tt cs) v"
  then have "v \<in> tree_values (root (built xs tt cs))" by (simp add: bt_contains_iff)
  then have "Some (inner_insert (root (built xs tt cs)) v 0) = root (built xs tt cs)"
    using bst_built by (rule insert_present[rotated])
  then show ?thesis by (simp add: bt_insert_def)
qed

theorem insert_present_unchanged_witness:
  "bt_contains (built [5, 3, 3, 7 :: int] IN_ORDER []) 3 \<and>
   bt_insert (built [5, 3, 3, 7 :: int] IN_ORDER []) 3 = built [5, 3, 3, 7 :: int] IN_ORDER [] \<and>
   map node_value (in_order (root (bt_insert (built [5, 3, 3, 7 :: int] IN_ORDER []) 3)))
     = [3, 5, 7]"
proof -
  have c: "bt_contains (built [5, 3, 3, 7 :: int] IN_ORDER []) 3"
    by (simp add: built_def bt_contains_def bt_iter_def bt_insert_def node_eq_def node_gt_def)
  have "map node_value (in_order (root (built [5, 3, 3, 7 :: int] IN_ORDER []))) = [3, 5, 7]"
    by (simp add: built_def bt_insert_def node_eq_def node_gt_def)
  then show ?thesis using insert_present_unchanged [OF c] c by simp
qed

section \<open>Level-order traversal after a deletion\<close>

text \<open>
  Claim C6. The claim is that level-order iteration yields the nodes grouped by their stored
  depth, the groups in increasing order of depth, each group in the order of a pre-order
  descent. The source groups by stored depth and keeps the order within a group (lemma
  \<open>level_order_groups\<close> above), but it yields the groups in the order in which the descent
  first meets each depth, and \<^verbatim>\<open>delete\<close> lifts subtrees without changing the stored
  depths. After the constructor on 10, 5, 3, 1, 15, 20 and \<^verbatim>\<open>delete(5)\<close> the iteration
  yields the values 10, 3, 20, 1, 15, whose stored depths are 0, 2, 2, 3, 1: the group of
  depth 1 comes last.
\<close>

theorem level_order_after_delete:
  "map (\<lambda>n. (node_value n, depth n))
     (bt_iter (built [10, 5, 3, 1, 15, 20 :: int] LEVEL_ORDER [Delete 5]))
   = [(10, 0), (3, 2), (20, 2), (1, 3), (15, 1)] \<and>
   \<not> sorted (map depth (bt_iter (built [10, 5, 3, 1, 15, 20 :: int] LEVEL_ORDER [Delete 5])))"
  by (simp add: built_def bt_iter_def bt_insert_def bt_delete_def level_order_def
      dict_add_def node_eq_def node_gt_def)

section \<open>Deleting a value that is not stored, and the empty tree\<close>

text \<open>
  Claim C7. If a tree does not contain \<open>v\<close>, \<^verbatim>\<open>delete(v)\<close> returns the tree as it was;
  the model of \<^verbatim>\<open>delete\<close> has no error result. On the empty tree, whatever the traversal
  order, \<^verbatim>\<open>delete\<close> leaves the tree empty, the iteration yields nothing and the
  membership test is false for every value.
\<close>

theorem delete_absent_noop:
  "(\<not> bt_contains self v \<longrightarrow> bt_delete self v = self) \<and>
   bt_delete \<lparr>root = None, traverse_type = tt\<rparr> v = \<lparr>root = None, traverse_type = tt\<rparr> \<and>
   bt_iter \<lparr>root = None, traverse_type = tt\<rparr> = [] \<and>
   \<not> bt_contains \<lparr>root = None, traverse_type = tt\<rparr> v"
  by (simp add: bt_contains_iff bt_delete_def delete_absent bt_iter_def level_order_def)

theorem delete_absent_noop_witness:
  "\<not> bt_contains (built [5, 3, 8 :: int] LEVEL_ORDER []) 4 \<and>
   bt_delete (built [5, 3, 8 :: int] LEVEL_ORDER []) 4 = built [5, 3, 8 :: int] LEVEL_ORDER []"
proof -
  have c: "\<not> bt_contains (built [5, 3, 8 :: int] LEVEL_ORDER []) 4"
    by (simp add: built_def bt_contains_def bt_iter_def bt_insert_def level_order_def
        dict_add_def node_eq_def node_gt_def)
  then show ?thesis
    using delete_absent_noop [of "built [5, 3, 8 :: int] LEVEL_ORDER []" "4::int" LEVEL_ORDER]
    by blast
qed

section \<open>Root first in pre-order, last in post-order\<close>

text \<open>
  Claim C8. For a tree with root node \<open>n\<close>, pre-order iteration is not empty and yields
  \<open>n\<close> first, and post-order iteration is not empty and yields \<open>n\<close> last. Each of the two
  iterations is empty exactly when the tree has no root.
\<close>

theorem pre_first_post_last:
  "bt_iter \<lparr>root = Some n, traverse_type = PRE_ORDER\<rparr> \<noteq> [] \<and>
   hd (bt_iter \<lparr>root = Some n, traverse_type = PRE_ORDER\<rparr>) = n \<and>
   bt_iter \<lparr>root = Some n, traverse_type = POST_ORDER\<rparr> \<noteq> [] \<and>
   last (bt_iter \<lparr>root = Some n, traverse_type = POST_ORDER\<rparr>) = n \<and>
   (bt_iter \<lparr>root = t, traverse_type = PRE_ORDER\<rparr> = [] \<longleftrightarrow> t = None) \<and>
   (bt_iter \<lparr>root = t, traverse_type = POST_ORDER\<rparr> = [] \<longleftrightarrow> t = None)"
proof -
  have 1: "pre_order (Some n) \<noteq> [] \<and> hd (pre_order (Some n)) = n" by (cases n) simp
  have 2: "(pre_order t = []) = (t = None)"
    by (cases t rule: pre_order.cases) simp_all
  have 3: "(post_order t = []) = (t = None)"
    by (cases t rule: pre_order.cases) simp_all
  show ?thesis using 1 2 3 post_order_last[of n] by (simp add: bt_iter_def)
qed

section \<open>The length of an iteration\<close>

text \<open>
  Claim C9, as amended. In any tree reached by the constructor and a sequence of calls,
  under any of the four traversal orders, the iteration has as many elements as the tree has
  nodes, and that number is the number of insertions (by the constructor or by a call) of a
  value the tree did not contain at that moment, minus the number of deletions of a value
  the tree did contain at that moment.
\<close>

theorem traversal_length_count:
  "length (bt_iter (built xs tt cs)) = count_nodes (root (built xs tt cs)) \<and>
   removing_deletes (map Insert xs @ cs) \<lparr>root = None, traverse_type = tt\<rparr>
     \<le> adding_inserts (map Insert xs @ cs) \<lparr>root = None, traverse_type = tt\<rparr> \<and>
   count_nodes (root (built xs tt cs))
     = adding_inserts (map Insert xs @ cs) \<lparr>root = None, traverse_type = tt\<rparr>
       - removing_deletes (map Insert xs @ cs) \<lparr>root = None, traverse_type = tt\<rparr>"
proof -
  let ?E = "\<lparr>root = None, traverse_type = tt\<rparr> :: 'a BinaryTree"
  have "built xs tt cs = run_calls (map Insert xs @ cs) ?E"
    by (simp add: built_def init_loop_run_calls run_calls_append)
  moreover have "count_nodes (root (run_calls (map Insert xs @ cs) ?E))
        + removing_deletes (map Insert xs @ cs) ?E
      = count_nodes (root ?E) + adding_inserts (map Insert xs @ cs) ?E"
    by (rule count_run_calls) simp
  ultimately show ?thesis by (simp add: length_bt_iter)
qed

text \<open>
  The claim as first stated counts the distinct values ever inserted. A value inserted,
  deleted and inserted again is one distinct value and one removing deletion, which gives
  zero, while the tree holds one node.
\<close>

theorem distinct_minus_deleted_counterexample:
  "length (bt_iter (built [] IN_ORDER [Insert (5::int), Delete 5, Insert 5])) = 1 \<and>
   distinct_inserted [] [Insert (5::int), Delete 5, Insert 5] = 1 \<and>
   removing_deletes (map Insert [] @ [Insert (5::int), Delete 5, Insert 5])
     \<lparr>root = None, traverse_type = IN_ORDER\<rparr> = 1 \<and>
   length (bt_iter (built [] IN_ORDER [Insert (5::int), Delete 5, Insert 5]))
     \<noteq> distinct_inserted [] [Insert (5::int), Delete 5, Insert 5]
       - removing_deletes (map Insert [] @ [Insert (5::int), Delete 5, Insert 5])
           \<lparr>root = None, traverse_type = IN_ORDER\<rparr>"
  by (simp add: built_def bt_iter_def bt_insert_def bt_delete_def bt_contains_def
      distinct_inserted_def node_eq_def node_gt_def)

section \<open>Construction with and without an initial sequence\<close>

text \<open>
  Claim C10. The constructor iterates its argument without a guard. With the default
  \<^verbatim>\<open>None\<close> (or an explicit \<^verbatim>\<open>None\<close>) it raises \<^verbatim>\<open>TypeError\<close>, whatever the traversal
  order; with an explicit empty sequence it succeeds and the tree has no root.
\<close>

theorem init_none_raises:
  "BinaryTree_init None tt = Inl TypeError \<and>
   BinaryTree_init (Some ([] :: 'a::linorder list)) tt
     = Inr \<lparr>root = None, traverse_type = tt\<rparr>"
  by (simp add: BinaryTree_init_def)

end
